theory Spec2Isabelle
  imports Complex_Main "HOL-Library.Char_ord" "HOL-Library.List_Lexorder" "HOL-Library.Sublist"
begin

section \<open>Tree model\<close>

text \<open>
  The programs work on trees of the tree library they import (\<open>ete3\<close>): a node has a
  name, a
  branch length to its parent (\<open>dist\<close>) and an ordered list of children; a node without
  children is a leaf. Branch lengths are floating-point numbers in the source and are
  modelled here by real numbers. A node of a tree is addressed by its path, the list of
  child indices leading to it from the root; the parent (\<open>node.up\<close>) of the node at path
  \<open>p\<close> is the node at \<open>butlast p\<close>, and the root (path \<open>[]\<close>) has no parent.
\<close>

datatype tree = Node (name: string) (dist: real) (children: "tree list")

datatype py_error =
    UnboundLocalError | AssertionError | KeyError | ValueError | TreeError
  | AttributeError | TypeError

type_synonym path = "nat list"

text \<open>\<open>node.get_leaf_names()\<close>: the names of the leaves below a node, left to right.\<close>

fun get_leaf_names :: "tree \<Rightarrow> string list" where
  "get_leaf_names (Node nm d cs) =
     (if cs = [] then [nm] else concat (map get_leaf_names cs))"

text \<open>\<open>len(node)\<close>: the number of leaves below a node.\<close>

definition len :: "tree \<Rightarrow> nat" where
  "len t = length (get_leaf_names t)"

text \<open>The node at a path, if the path leads to one.\<close>

fun node_at :: "tree \<Rightarrow> path \<Rightarrow> tree option" where
  "node_at t [] = Some t"
| "node_at (Node nm d cs) (i # p) = (if i < length cs then node_at (cs ! i) p else None)"

text \<open>
  All nodes in preorder, as paths: a node first, then the nodes below each of its
  children, the children taken from left to right (\<open>i\<close> is the index of the next child).
\<close>

fun preorder :: "tree \<Rightarrow> path list"
  and preorder_list :: "nat \<Rightarrow> tree list \<Rightarrow> path list" where
  "preorder (Node nm d cs) = [] # preorder_list 0 cs"
| "preorder_list i [] = []"
| "preorder_list i (c # cs) = map ((#) i) (preorder c) @ preorder_list (Suc i) cs"

text \<open>
  All nodes in level order, the order of the library's default traversal: the nodes of
  depth 0, 1, 2 and so on, each depth from left to right.
\<close>

fun paths_at_depth :: "nat \<Rightarrow> tree \<Rightarrow> path list" where
  "paths_at_depth 0 t = [[]]"
| "paths_at_depth (Suc k) (Node nm d cs) =
     concat (map (\<lambda>(i, c). map ((#) i) (paths_at_depth k c)) (enumerate 0 cs))"

fun height :: "tree \<Rightarrow> nat" where
  "height (Node nm d cs) = foldr (\<lambda>c h. max (Suc (height c)) h) cs 0"

definition levelorder :: "tree \<Rightarrow> path list" where
  "levelorder t = concat (map (\<lambda>k. paths_at_depth k t) [0..<Suc (height t)])"

text \<open>
  \<open>t & name\<close>: the first node, in level order, that carries the name; the library
  raises \<open>TreeError\<close> when there is none.
\<close>

definition search_first :: "tree \<Rightarrow> string \<Rightarrow> py_error + path" where
  "search_first t q =
     (case filter (\<lambda>p. map_option name (node_at t p) = Some q) (levelorder t) of
        [] \<Rightarrow> Inl TreeError
      | p # _ \<Rightarrow> Inr p)"

section \<open>Scope narrowing (\<open>main\<close>, the block under \<open>if nU is not None\<close>)\<close>

text \<open>
  The ascent loop \<open>while len(node) < nU: node_prev = node; n_taxa_prev = len(node);
  node = node.up\<close>. The current node is given by its reversed path (so that its parent is
  the tail); \<open>prev\<close> is \<open>None\<close> while \<open>node_prev\<close> and \<open>n_taxa_prev\<close> are unassigned.
  Ascending from the root makes \<open>node\<close> the value \<open>None\<close>, whose length the next loop test
  cannot take (\<open>TypeError\<close>).
\<close>

fun ascend :: "tree \<Rightarrow> int \<Rightarrow> path \<Rightarrow> (path \<times> nat) option \<Rightarrow>
    py_error + (path \<times> (path \<times> nat) option)" where
  "ascend t nU [] prev =
     (if int (len t) < nU then Inl TypeError else Inr ([], prev))"
| "ascend t nU (i # rp) prev =
     (case node_at t (rev (i # rp)) of
        None \<Rightarrow> Inl AttributeError
      | Some n \<Rightarrow>
          if int (len n) < nU then ascend t nU rp (Some (rev (i # rp), len n))
          else Inr (rev (i # rp), prev))"

text \<open>
  The narrowing block of \<open>main\<close>. The result is the tree that the tree file holds
  afterwards: the whole tree when no upper bound is given or the tree is small enough,
  otherwise the subtree chosen by the decision step. Reading \<open>node_prev\<close> or
  \<open>n_taxa_prev\<close> before the loop body has run raises \<open>UnboundLocalError\<close>.
\<close>

definition main_narrow :: "tree \<Rightarrow> string \<Rightarrow> int option \<Rightarrow> int option \<Rightarrow> py_error + tree" where
  "main_narrow t query_gene nU nL =
     (case nU of
        None \<Rightarrow> Inr t
      | Some u \<Rightarrow>
          if int (len t) > u then
            (case search_first t query_gene of
               Inl e \<Rightarrow> Inl e
             | Inr p \<Rightarrow>
                (case ascend t u (rev p) None of
                   Inl e \<Rightarrow> Inl e
                 | Inr (node, prev) \<Rightarrow>
                    (case prev of
                       None \<Rightarrow> Inl UnboundLocalError
                     | Some (node_prev, n_taxa_prev) \<Rightarrow>
                        (case node_at t
                           (if (case nL of None \<Rightarrow> True | Some l \<Rightarrow> int n_taxa_prev \<ge> l)
                            then node_prev else node) of
                           None \<Rightarrow> Inl AttributeError
                         | Some r \<Rightarrow> Inr r))))
          else Inr t)"

text \<open>The tree \<open>((A:1,B:1):1,(C:1,D:1):1);\<close>, used as a concrete input below.\<close>

definition tree_ABCD :: tree where
  "tree_ABCD =
     Node [] 0 [Node [] 1 [Node ''A'' 1 [], Node ''B'' 1 []],
                Node [] 1 [Node ''C'' 1 [], Node ''D'' 1 []]]"

section \<open>Ortholog inference (\<open>gene_to_species\<close>, \<open>write_orthologs\<close>, \<open>add_orthologs_to_file\<close>)\<close>

text \<open>\<open>s.split(sep)\<close> for a one-character separator: the pieces between the separators.\<close>

fun py_split :: "char \<Rightarrow> string \<Rightarrow> string list" where
  "py_split sep [] = [[]]"
| "py_split sep (c # cs) =
     (if c = sep then [] # py_split sep cs
      else (case py_split sep cs of [] \<Rightarrow> [[c]] | w # ws \<Rightarrow> (c # w) # ws))"

text \<open>\<open>sep.join(xs)\<close>.\<close>

fun py_join :: "string \<Rightarrow> string list \<Rightarrow> string" where
  "py_join sep [] = []"
| "py_join sep [x] = x"
| "py_join sep (x # y # ys) = x @ sep @ py_join sep (y # ys)"

definition gene_to_species :: "string \<Rightarrow> string" where
  "gene_to_species nm = py_join ''_'' (take 2 (py_split (CHR ''_'') nm))"

text \<open>
  \<open>add_orthologs_to_file\<close>: the rows handed to the CSV writer. The genes are grouped by
  species in their order of appearance; the species are visited in sorted order and
  those in \<open>overlap\<close> are skipped.
\<close>

definition add_orthologs_to_file :: "string list \<Rightarrow> string set \<Rightarrow> (string \<times> string) list" where
  "add_orthologs_to_file genes overlap =
     map (\<lambda>sp. (sp, py_join '', '' (filter (\<lambda>g. gene_to_species g = sp) genes)))
       (filter (\<lambda>sp. sp \<notin> overlap) (sort (remdups (map gene_to_species genes))))"

text \<open>The species of the genes below a list of nodes (\<open>species_other\<close> in the loop).\<close>

definition species_below :: "tree list \<Rightarrow> string set" where
  "species_below n_other = set (map gene_to_species (concat (map get_leaf_names n_other)))"

text \<open>
  One pass through the body of the loop of \<open>write_orthologs\<close>, at an ancestor whose
  other children are \<open>n_other\<close>, with \<open>species_query_branch\<close> as accumulated so far. The
  first component is \<open>None\<close> when \<open>add_orthologs_to_file\<close> is not called and otherwise
  the rows it writes; the second is the updated \<open>species_query_branch\<close>. The
  source's variable \<open>o\<close> is called \<open>ov\<close> here.
\<close>

definition ortholog_level ::
    "tree list \<Rightarrow> string set \<Rightarrow> (string \<times> string) list option \<times> string set" where
  "ortholog_level n_other species_query_branch =
     (let genes_other = concat (map get_leaf_names n_other);
          species_other = species_below n_other;
          overlap = species_query_branch \<inter> species_other;
          ov = card overlap;
          m = min (card species_other) (card species_query_branch)
      in (if ov = 0 \<or> (m \<ge> 4 \<and> ov = 1) \<or> (m \<ge> 9 \<and> ov = 2)
          then Some (add_orthologs_to_file genes_other overlap) else None,
          species_query_branch \<union> species_other))"

text \<open>
  The loop \<open>while n.up is not None\<close>. The node \<open>n\<close> is given by its reversed path; its
  parent's other children are all children except the one just ascended from. The
  result lists, nearest ancestor first, what each pass wrote.
\<close>

fun ortholog_loop ::
    "tree \<Rightarrow> path \<Rightarrow> string set \<Rightarrow> py_error + (string \<times> string) list option list" where
  "ortholog_loop t [] species_query_branch = Inr []"
| "ortholog_loop t (i # rp) species_query_branch =
     (case node_at t (rev rp) of
        None \<Rightarrow> Inl AttributeError
      | Some n \<Rightarrow>
          (let n_other = take i (children n) @ drop (Suc i) (children n);
               (rows, species_query_branch') = ortholog_level n_other species_query_branch
           in (case ortholog_loop t rp species_query_branch' of
                 Inl e \<Rightarrow> Inl e
               | Inr rest \<Rightarrow> Inr (rows # rest))))"

text \<open>
  \<open>write_orthologs\<close>: the rows of the report file, the header first. The levels written
  are kept beside them.
\<close>

definition ortholog_levels :: "tree \<Rightarrow> string \<Rightarrow> py_error + (string \<times> string) list option list" where
  "ortholog_levels t gene_name =
     (case search_first t gene_name of
        Inl e \<Rightarrow> Inl e
      | Inr p \<Rightarrow> ortholog_loop t (rev p) {})"

definition write_orthologs :: "tree \<Rightarrow> string \<Rightarrow> py_error + (string \<times> string) list" where
  "write_orthologs t gene_name =
     (case ortholog_levels t gene_name of
        Inl e \<Rightarrow> Inl e
      | Inr levels \<Rightarrow>
          Inr ((''Species'', ''Orthologs'') #
               concat (map (\<lambda>l. case l of None \<Rightarrow> [] | Some rows \<Rightarrow> rows) levels)))"

text \<open>
  Concrete inputs. The clade \<open>clade_4\<close> has the four species \<open>a_a\<close>, \<open>e_e\<close>, \<open>f_f\<close>,
  \<open>g_g\<close> and \<open>clade_3\<close> the three species \<open>a_a\<close>, \<open>e_e\<close>, \<open>f_f\<close>. In
  \<open>tree_overlap_4_4\<close> and \<open>tree_overlap_4_3\<close> the query \<open>q_q_0\<close> has accumulated the
  four species \<open>a_a\<close>, \<open>b_b\<close>, \<open>c_c\<close>, \<open>d_d\<close> when it reaches the root, whose other
  child is \<open>clade_4\<close> and \<open>clade_3\<close>, respectively. In \<open>tree_overlap_1_4\<close> the query has
  accumulated only the species \<open>a_a\<close> when it meets \<open>clade_4\<close>.
\<close>

definition clade_4 :: tree where
  "clade_4 = Node [] 1 [Node ''a_a_2'' 1 [], Node ''e_e_1'' 1 [],
                        Node ''f_f_1'' 1 [], Node ''g_g_1'' 1 []]"

definition clade_3 :: tree where
  "clade_3 = Node [] 1 [Node ''a_a_2'' 1 [], Node ''e_e_1'' 1 [], Node ''f_f_1'' 1 []]"

definition query_side :: tree where
  "query_side =
     Node [] 1 [Node ''q_q_0'' 1 [],
                Node [] 1 [Node ''a_a_1'' 1 [], Node ''b_b_1'' 1 [],
                           Node ''c_c_1'' 1 [], Node ''d_d_1'' 1 []]]"

definition tree_overlap_4_4 :: tree where
  "tree_overlap_4_4 = Node [] 0 [query_side, clade_4]"

definition tree_overlap_4_3 :: tree where
  "tree_overlap_4_3 = Node [] 0 [query_side, clade_3]"

definition tree_overlap_1_4 :: tree where
  "tree_overlap_1_4 =
     Node [] 0 [Node [] 1 [Node ''q_q_0'' 1 [], Node ''a_a_1'' 1 []], clade_4]"

section \<open>Tree decomposition (\<open>split_tree\<close>)\<close>

subsection \<open>Operations of the tree library used by \<open>split_tree\<close>\<close>

text \<open>
  \<open>t.traverse("preorder", is_leaf_fn)\<close>: the nodes in preorder, where the traversal
  does not descend below a node for which \<open>is_leaf_fn\<close> holds.
\<close>

fun traverse_preorder :: "(tree \<Rightarrow> bool) \<Rightarrow> tree \<Rightarrow> path list"
  and traverse_list :: "(tree \<Rightarrow> bool) \<Rightarrow> nat \<Rightarrow> tree list \<Rightarrow> path list" where
  "traverse_preorder is_leaf_fn (Node nm d cs) =
     [] # (if is_leaf_fn (Node nm d cs) then [] else traverse_list is_leaf_fn 0 cs)"
| "traverse_list is_leaf_fn i [] = []"
| "traverse_list is_leaf_fn i (c # cs) =
     map ((#) i) (traverse_preorder is_leaf_fn c) @ traverse_list is_leaf_fn (Suc i) cs"

text \<open>\<open>node.name = new\<close> for the node at a path.\<close>

fun set_name :: "tree \<Rightarrow> path \<Rightarrow> string \<Rightarrow> tree" where
  "set_name (Node nm d cs) [] new = Node new d cs"
| "set_name (Node nm d cs) (i # p) new =
     (if i < length cs then Node nm d (cs[i := set_name (cs ! i) p new]) else Node nm d cs)"

text \<open>
  \<open>node.get_distance(name)\<close>: the library looks the name up among all nodes of the tree
  (\<open>ValueError\<close> when no node carries it, \<open>TreeError\<close> when several do) and adds the
  branch lengths on the way from each of the two nodes up to their common ancestor.
\<close>

fun common_prefix :: "path \<Rightarrow> path \<Rightarrow> path" where
  "common_prefix (i # p) (j # q) = (if i = j then i # common_prefix p q else [])"
| "common_prefix p q = []"

text \<open>The sum of the branch lengths of the nodes on a path, the start node excluded.\<close>

fun dist_below :: "tree \<Rightarrow> path \<Rightarrow> real" where
  "dist_below t [] = 0"
| "dist_below (Node nm d cs) (i # p) =
     (if i < length cs then dist (cs ! i) + dist_below (cs ! i) p else 0)"

definition search_nodes :: "tree \<Rightarrow> string \<Rightarrow> path list" where
  "search_nodes t nm = filter (\<lambda>p. map_option name (node_at t p) = Some nm) (preorder t)"

definition get_distance :: "tree \<Rightarrow> path \<Rightarrow> string \<Rightarrow> py_error + real" where
  "get_distance t p target =
     (case search_nodes t target of
        [] \<Rightarrow> Inl ValueError
      | [q] \<Rightarrow>
          (let c = common_prefix p q in
           case node_at t c of
             None \<Rightarrow> Inl AttributeError
           | Some a \<Rightarrow> Inr (dist_below a (drop (length c) p) + dist_below a (drop (length c) q)))
      | _ \<Rightarrow> Inl TreeError)"

text \<open>
  \<open>for ch in n: ch.detach()\<close>. Iterating over a node of the library yields the leaves
  below it (the node itself when it is a leaf), and \<open>detach\<close> removes a node from the
  children of its parent. The result is \<open>None\<close> when the node is a leaf and so detaches
  itself; otherwise it is the node with every leaf below it removed, the inner nodes
  staying in place.
\<close>

fun detach_leaves :: "tree \<Rightarrow> tree option" where
  "detach_leaves (Node nm d cs) =
     (if cs = [] then None
      else Some (Node nm d
        (concat (map (\<lambda>c. case detach_leaves c of None \<Rightarrow> [] | Some c' \<Rightarrow> [c']) cs))))"

text \<open>
  \<open>t.unroot()\<close> raises \<open>TreeError\<close> on a root with exactly two children that are both
  leaves. The unrooted trees themselves are not modelled.
\<close>

definition unroot_fails :: "tree \<Rightarrow> bool" where
  "unroot_fails t \<longleftrightarrow>
     (case children t of [a, b] \<Rightarrow> children a = [] \<and> children b = [] | _ \<Rightarrow> False)"

subsection \<open>Strings\<close>

text \<open>\<open>"%d" % n\<close> for a natural number.\<close>

fun show_nat :: "nat \<Rightarrow> string" where
  "show_nat n =
     (if n < 10 then [char_of (48 + n)]
      else show_nat (n div 10) @ [char_of (48 + n mod 10)])"

text \<open>\<open>"PART.%d-%d_genes" % (i_part, l)\<close>.\<close>

definition part_name :: "nat \<Rightarrow> nat \<Rightarrow> string" where
  "part_name i_part l = ''PART.'' @ show_nat i_part @ ''-'' @ show_nat l @ ''_genes''"

text \<open>\<open>g.startswith("PART.")\<close>.\<close>

definition is_part :: "string \<Rightarrow> bool" where
  "is_part g \<longleftrightarrow> take 5 g = ''PART.''"

subsection \<open>The alignment\<close>

text \<open>\<open>fw.SeqLists\<close>: the aligned sequence of each gene of the input alignment.\<close>

type_synonym alignment = "string \<rightharpoonup> string"

text \<open>A written alignment file: names and sequences.\<close>

type_synonym fasta = "(string \<times> string) list"

text \<open>
  Modelled from the spec: \<open>FastaWriter.WriteSeqsToFasta\<close> of the module \<open>fasta_writer\<close>,
  which is not among the sources. It writes the sequences of the genes it is given to an
  alignment file.
\<close>

definition WriteSeqsToFasta :: "alignment \<Rightarrow> string list \<Rightarrow> fasta" where
  "WriteSeqsToFasta SeqLists seqs =
     concat (map (\<lambda>g. case SeqLists g of None \<Rightarrow> [] | Some s \<Rightarrow> [(g, s)]) seqs)"

text \<open>\<open>d_ngaps[g]\<close>, where \<open>d_ngaps\<close> maps each gene to \<open>seq.count("-")\<close>.\<close>

definition d_ngaps :: "alignment \<Rightarrow> string \<Rightarrow> py_error + int" where
  "d_ngaps SeqLists g =
     (case SeqLists g of
        None \<Rightarrow> Inl KeyError
      | Some s \<Rightarrow> Inr (int (length (filter (\<lambda>c. c = CHR ''-'') s))))"

subsection \<open>Choice of the outgroup (lines 78 to 83)\<close>

text \<open>
  The float \<open>9e99\<close>: its exact value is this integer, and Python compares integers
  with floats exactly.
\<close>

definition float_9e99 :: int where
  "float_9e99 =
     8999999999999999948859130765266355329578537025198862586562510896759102769772101980841694466750283776"

text \<open>\<open>[s for s in n.up.children if s != n]\<close>; the root has no parent.\<close>

definition sisters :: "tree \<Rightarrow> path \<Rightarrow> py_error + tree list" where
  "sisters t p =
     (if p = [] then Inl AttributeError
      else (case node_at t (butlast p) of
              None \<Rightarrow> Inl AttributeError
            | Some up \<Rightarrow> Inr (take (last p) (children up) @ drop (Suc (last p)) (children up))))"

text \<open>\<open>[9e99 if g.startswith("PART.") else d_ngaps[g] for g in sister_genes]\<close>.\<close>

fun n_gaps :: "alignment \<Rightarrow> string list \<Rightarrow> py_error + int list" where
  "n_gaps SeqLists [] = Inr []"
| "n_gaps SeqLists (g # gs) =
     (case (if is_part g then Inr float_9e99 else d_ngaps SeqLists g) of
        Inl e \<Rightarrow> Inl e
      | Inr x \<Rightarrow> (case n_gaps SeqLists gs of Inl e \<Rightarrow> Inl e | Inr xs \<Rightarrow> Inr (x # xs)))"

text \<open>\<open>min(xs)\<close> and \<open>xs.index(x)\<close>.\<close>

definition py_min :: "int list \<Rightarrow> py_error + int" where
  "py_min xs = (if xs = [] then Inl ValueError else Inr (Min (set xs)))"

definition py_index :: "int list \<Rightarrow> int \<Rightarrow> py_error + nat" where
  "py_index xs x =
     (if x \<in> set xs then Inr (length (takeWhile (\<lambda>y. y \<noteq> x) xs)) else Inl ValueError)"

definition choose_outgroup :: "alignment \<Rightarrow> tree \<Rightarrow> path \<Rightarrow> py_error + string" where
  "choose_outgroup SeqLists t p =
     (case sisters t p of
        Inl e \<Rightarrow> Inl e
      | Inr ss \<Rightarrow>
          (let sister_genes = concat (map get_leaf_names ss) in
           case n_gaps SeqLists sister_genes of
             Inl e \<Rightarrow> Inl e
           | Inr gaps \<Rightarrow>
               (case py_min gaps of
                  Inl e \<Rightarrow> Inl e
                | Inr x \<Rightarrow>
                    (case py_index gaps x of
                       Inl e \<Rightarrow> Inl e
                     | Inr i \<Rightarrow> Inr (sister_genes ! i)))))"

subsection \<open>The files written and the state of the loop\<close>

text \<open>
  A written per-subtree tree file: the subtree serialized by \<open>n.write()\<close> and, when an
  outgroup was spliced in, the name and the branch length of the synthetic leaf (the
  arguments of the format \<open>",SHOOTOUTGROUP_%s:%0.5f);"\<close>). The Newick text is
  represented by the tree it denotes; the rendering of numbers is not modelled.
\<close>

type_synonym newick = "tree \<times> (string \<times> real) option"

record split_state =
  tree :: tree
  i_part :: nat
  n_profile :: nat
  sizes :: "nat list"
  outfile_bound :: bool
  tree_files :: "(nat \<times> newick) list"
  msa_files :: "(nat \<times> fasta) list"

text \<open>What \<open>split_tree\<close> returns and leaves on disk.\<close>

record split_result =
  profiles :: nat
  sub_trees :: "(nat \<times> newick) list"
  sub_msas :: "(nat \<times> fasta) list"
  super_tree :: "tree option"

subsection \<open>The body of the first loop (lines 65 to 104)\<close>

text \<open>
  The branch \<open>else\<close> of \<open>if not q_outgroup\<close> (lines 77 to 95), for the boundary node
  \<open>n\<close> at path \<open>p\<close> of the tree \<open>t\<close>: the Newick text and the alignment written. The
  dictionary \<open>translate\<close> built on lines 93 and 94 is not used by the source afterwards.
\<close>

definition with_outgroup :: "alignment \<Rightarrow> tree \<Rightarrow> path \<Rightarrow> tree \<Rightarrow> py_error + newick \<times> fasta" where
  "with_outgroup SeqLists t p n =
     (case choose_outgroup SeqLists t p of
        Inl e \<Rightarrow> Inl e
      | Inr outgrp \<Rightarrow>
          (case get_distance t p outgrp of
             Inl e \<Rightarrow> Inl e
           | Inr d \<Rightarrow>
               if \<not> d > dist n then Inl AssertionError
               else
                 (let nwk = (n, Some (''SHOOTOUTGROUP_'' @ outgrp, d - dist n));
                      genes = get_leaf_names n
                  in Inr (nwk, WriteSeqsToFasta SeqLists genes))))"

text \<open>
  The branch \<open>if not q_outgroup\<close> (lines 74 and 75). Line 74 reads the local variable
  \<open>outfile\<close>, which is assigned only by the \<open>with\<close> statement on line 96: while it is
  unassigned the read raises \<open>UnboundLocalError\<close>; once assigned it is a closed file,
  passed as the \<open>features\<close> argument of \<open>write\<close>, which cannot iterate over it.
\<close>

definition without_outgroup :: "alignment \<Rightarrow> bool \<Rightarrow> tree \<Rightarrow> py_error + newick \<times> fasta" where
  "without_outgroup SeqLists bound n =
     (if bound then Inl ValueError else Inl UnboundLocalError)"

text \<open>One pass through the body of the loop, for the node at path \<open>p\<close>.\<close>

definition visit :: "alignment \<Rightarrow> int \<Rightarrow> bool \<Rightarrow> path \<Rightarrow> split_state \<Rightarrow> py_error + split_state" where
  "visit SeqLists n_taxa q_outgroup p s =
     (case node_at (tree s) p of
        None \<Rightarrow> Inl AttributeError
      | Some n \<Rightarrow>
          (let l = len n in
           if int l \<le> n_taxa then
             (case (if \<not> q_outgroup then without_outgroup SeqLists (outfile_bound s) n
                    else with_outgroup SeqLists (tree s) p n) of
                Inl e \<Rightarrow> Inl e
              | Inr (nwk, msa) \<Rightarrow>
                  Inr (s\<lparr> n_profile := n_profile s + min 5 l,
                          msa_files := msa_files s @ [(i_part s, msa)],
                          tree_files := tree_files s @ [(i_part s, nwk)],
                          outfile_bound := True,
                          tree := set_name (tree s) p (part_name (i_part s) l),
                          sizes := sizes s @ [l],
                          i_part := i_part s + 1 \<rparr>))
           else Inr s))"

text \<open>A \<open>for\<close> loop whose body may raise.\<close>

fun for_each :: "('a \<Rightarrow> 's \<Rightarrow> py_error + 's) \<Rightarrow> 'a list \<Rightarrow> 's \<Rightarrow> py_error + 's" where
  "for_each body [] s = Inr s"
| "for_each body (x # xs) s =
     (case body x s of Inl e \<Rightarrow> Inl e | Inr s' \<Rightarrow> for_each body xs s')"

text \<open>
  The state before the first loop (\<open>n_profile = 0\<close>, \<open>i_part = 0\<close>, \<open>sizes = []\<close>, no
  file written, \<open>outfile\<close> unassigned) and the first loop,
  \<open>for n in t.traverse("preorder", is_leaf_fn = stop_fn)\<close>. The body
  changes only names, and \<open>stop_fn\<close> reads only leaf counts, so the nodes the traversal
  yields are those it yields on the tree as it is before the loop (\<open>set_name_shape\<close>
  below).
\<close>

definition stop_fn :: "int \<Rightarrow> tree \<Rightarrow> bool" where
  "stop_fn n_taxa node \<longleftrightarrow> int (len node) \<le> n_taxa"

definition initial_state :: "tree \<Rightarrow> split_state" where
  "initial_state t =
     \<lparr> tree = t, i_part = 0, n_profile = 0, sizes = [], outfile_bound = False,
       tree_files = [], msa_files = [] \<rparr>"

definition first_pass :: "alignment \<Rightarrow> int \<Rightarrow> bool \<Rightarrow> tree \<Rightarrow> py_error + split_state" where
  "first_pass SeqLists n_taxa q_outgroup t =
     for_each (visit SeqLists n_taxa q_outgroup) (traverse_preorder (stop_fn n_taxa) t)
       (initial_state t)"

subsection \<open>The second loop (lines 106 to 109) and \<open>split_tree\<close>\<close>

lemma size_detach_leaves: "detach_leaves n = Some n' \<Longrightarrow> size n' \<le> size n"
proof (induction n arbitrary: n')
  case (Node nm d cs)
  have "size_list size (concat (map (\<lambda>c. case detach_leaves c of None \<Rightarrow> [] | Some c' \<Rightarrow> [c']) xs))
          \<le> size_list size xs" if "set xs \<subseteq> set cs" for xs
    using that
  proof (induction xs)
    case Nil
    show ?case by simp
  next
    case (Cons x xs)
    then show ?case using Node.IH [of x] by (cases "detach_leaves x") auto
  qed
  from this [of cs] Node.prems show ?case by (auto split: if_splits)
qed

text \<open>
  The traversal of the second loop at one node: the body runs first (a node whose name
  starts with \<open>PART.\<close> has the leaves below it detached), then \<open>stop_fn\<close> is evaluated
  on the node as the body left it, and only then are its children, as they are now,
  visited in turn. The result is \<open>None\<close> when the node has detached itself from its
  parent.
\<close>

function remove_subtrees :: "int \<Rightarrow> tree \<Rightarrow> tree option" where
  "remove_subtrees n_taxa n =
     (case (if is_part (name n) then detach_leaves n else Some n) of
        None \<Rightarrow> None
      | Some n' \<Rightarrow>
          if stop_fn n_taxa n' then Some n'
          else Some (Node (name n') (dist n')
                 (concat (map (\<lambda>c. case remove_subtrees n_taxa c of None \<Rightarrow> [] | Some c' \<Rightarrow> [c'])
                    (children n')))))"
  by pat_completeness auto
termination
proof (relation "measure (\<lambda>(n_taxa, n). size n)")
  show "wf (measure (\<lambda>(n_taxa, n). size n))" by simp
next
  fix n_taxa :: int and n n' c :: tree
  assume a: "(if is_part (name n) then detach_leaves n else Some n) = Some n'"
    and c: "c \<in> set (children n')"
  have "size n' \<le> size n"
    using a size_detach_leaves [of n n'] by (auto split: if_splits)
  moreover have "size c < size n'"
    using c by (cases n') (auto simp: less_Suc_eq_le size_list_estimation')
  ultimately show "((n_taxa, c), (n_taxa, n)) \<in> measure (\<lambda>(n_taxa, n). size n)" by simp
qed

text \<open>
  \<open>split_tree\<close>, from line 52 on. The tree \<open>t\<close> is the one read from \<open>fn_tree\<close>. The root
  has no parent to be detached from. The supertree is written before \<open>t.unroot()\<close> is
  called; when that call raises, nothing is returned. Reading the written subtree back
  and unrooting the copy (lines 100 to 103) changes no value used afterwards and is
  left out.
\<close>

definition split_tree :: "tree \<Rightarrow> alignment \<Rightarrow> int \<Rightarrow> bool \<Rightarrow> py_error + split_result" where
  "split_tree t SeqLists n_taxa q_outgroup =
     (if int (len t) \<le> n_taxa then
        Inr \<lparr> profiles = min 5 (len t), sub_trees = [(0, (t, None))], sub_msas = [],
              super_tree = None \<rparr>
      else
        (case first_pass SeqLists n_taxa q_outgroup t of
           Inl e \<Rightarrow> Inl e
         | Inr s \<Rightarrow>
             (let t' = (case remove_subtrees n_taxa (tree s) of None \<Rightarrow> tree s | Some t' \<Rightarrow> t')
              in if unroot_fails t' then Inl TreeError
                 else Inr \<lparr> profiles = n_profile s, sub_trees = tree_files s,
                           sub_msas = msa_files s, super_tree = Some t' \<rparr>)))"

subsection \<open>Concrete inputs\<close>

text \<open>The tree \<open>((A:1,B:1):1,((C:1,D:1):1,(E:1,F:1):1):1);\<close> and an alignment of its genes.\<close>

definition tree_6 :: tree where
  "tree_6 =
     Node [] 0 [Node [] 1 [Node ''A'' 1 [], Node ''B'' 1 []],
                Node [] 1 [Node [] 1 [Node ''C'' 1 [], Node ''D'' 1 []],
                           Node [] 1 [Node ''E'' 1 [], Node ''F'' 1 []]]]"

definition msa_6 :: alignment where
  "msa_6 = [''A'' \<mapsto> ''AC-T'', ''B'' \<mapsto> ''ACGT'', ''C'' \<mapsto> ''A--T'', ''D'' \<mapsto> ''AC-T'',
            ''E'' \<mapsto> ''ACGT'', ''F'' \<mapsto> ''-CGT'']"

text \<open>The tree \<open>(((A:1,B:1):1,(C:1,D:1):1):1,((E:1,F:1):1,(G:1,H:1):1):1);\<close>.\<close>

definition tree_8 :: tree where
  "tree_8 =
     Node [] 0 [Node [] 1 [Node [] 1 [Node ''A'' 1 [], Node ''B'' 1 []],
                           Node [] 1 [Node ''C'' 1 [], Node ''D'' 1 []]],
                Node [] 1 [Node [] 1 [Node ''E'' 1 [], Node ''F'' 1 []],
                           Node [] 1 [Node ''G'' 1 [], Node ''H'' 1 []]]]"

definition msa_8 :: alignment where
  "msa_8 = [''A'' \<mapsto> ''AC-T'', ''B'' \<mapsto> ''ACGT'', ''C'' \<mapsto> ''A--T'', ''D'' \<mapsto> ''AC-T'',
            ''E'' \<mapsto> ''ACGT'', ''F'' \<mapsto> ''-CGT'', ''G'' \<mapsto> ''ACGT'', ''H'' \<mapsto> ''AC--'']"


text \<open>
  A tree of 15 genes whose clades of 3, 7 and 5 genes are the boundary nodes for a
  target of 7 taxa, and an alignment of its genes.
\<close>

definition tree_15 :: tree where
  "tree_15 =
     Node [] 0
       [Node [] 1
          [Node [] 1 [Node ''a1'' 1 [], Node ''a2'' 1 [], Node ''a3'' 1 []],
           Node [] 1 [Node ''b1'' 1 [], Node ''b2'' 1 [], Node ''b3'' 1 [], Node ''b4'' 1 [],
                      Node ''b5'' 1 [], Node ''b6'' 1 [], Node ''b7'' 1 []]],
        Node [] 1 [Node ''c1'' 1 [], Node ''c2'' 1 [], Node ''c3'' 1 [], Node ''c4'' 1 [],
                   Node ''c5'' 1 []]]"

definition msa_15 :: alignment where
  "msa_15 = map_of (map (\<lambda>g. (g, ''AC-T''))
     [''a1'', ''a2'', ''a3'', ''b1'', ''b2'', ''b3'', ''b4'', ''b5'', ''b6'', ''b7'',
      ''c1'', ''c2'', ''c3'', ''c4'', ''c5''])"

subsection \<open>Boundary nodes\<close>

text \<open>
  The boundary nodes of a tree for a target \<open>n_taxa\<close>: the nodes that the traversal of
  the first loop yields and that pass the test \<open>l <= n_taxa\<close> of its body, in the order
  of the traversal.
\<close>

definition boundary :: "int \<Rightarrow> tree \<Rightarrow> path \<Rightarrow> tree option" where
  "boundary n_taxa t p =
     (case node_at t p of
        None \<Rightarrow> None
      | Some n \<Rightarrow> if int (len n) \<le> n_taxa then Some n else None)"

definition boundary_nodes :: "int \<Rightarrow> tree \<Rightarrow> tree list" where
  "boundary_nodes n_taxa t =
     List.map_filter (boundary n_taxa t) (traverse_preorder (stop_fn n_taxa) t)"

text \<open>
  A list of paths in which no path is an ancestor of, or equal to, a path before it.
\<close>

fun ordered :: "path list \<Rightarrow> bool" where
  "ordered [] \<longleftrightarrow> True"
| "ordered (p # ps) \<longleftrightarrow> (\<forall>q \<in> set ps. \<not> prefix q p) \<and> ordered ps"


definition result_15 :: split_result where
  "result_15 = \<lparr>profiles = 13,
        sub_trees =
          [(0, Node [] 1 [Node ''a1'' 1 [], Node ''a2'' 1 [], Node ''a3'' 1 []],
            Some (''SHOOTOUTGROUP_b1'', 2)),
           (1, Node [] 1
                [Node ''b1'' 1 [], Node ''b2'' 1 [], Node ''b3'' 1 [],
                 Node ''b4'' 1 [], Node ''b5'' 1 [], Node ''b6'' 1 [],
                 Node ''b7'' 1 []],
            Some (''SHOOTOUTGROUP_a1'', 2)),
           (2, Node [] 1
                [Node ''c1'' 1 [], Node ''c2'' 1 [], Node ''c3'' 1 [],
                 Node ''c4'' 1 [], Node ''c5'' 1 []],
            Some (''SHOOTOUTGROUP_a1'', 3))],
        sub_msas =
          [(0, [(''a1'', ''AC-T''), (''a2'', ''AC-T''), (''a3'', ''AC-T'')]),
           (1, [(''b1'', ''AC-T''), (''b2'', ''AC-T''), (''b3'', ''AC-T''),
                (''b4'', ''AC-T''), (''b5'', ''AC-T''), (''b6'', ''AC-T''),
                (''b7'', ''AC-T'')]),
           (2, [(''c1'', ''AC-T''), (''c2'', ''AC-T''), (''c3'', ''AC-T''),
                (''c4'', ''AC-T''), (''c5'', ''AC-T'')])],
        super_tree =
          Some (Node [] 0
             [Node [] 1 [Node ''PART.0-3_genes'' 1 [], Node ''PART.1-7_genes'' 1 []],
              Node ''PART.2-5_genes'' 1 []])\<rparr>"
section \<open>Properties of scope narrowing\<close>

lemma node_at_append:
  "node_at t (p @ q) = (case node_at t p of None \<Rightarrow> None | Some n \<Rightarrow> node_at n q)"
proof (induction p arbitrary: t)
  case Nil
  show ?case by simp
next
  case (Cons i p)
  show ?case by (cases t) (simp add: Cons.IH)
qed

lemma node_at_prefix:
  "node_at t (p @ q) = Some n \<Longrightarrow> \<exists>m. node_at t p = Some m \<and> node_at m q = Some n"
  by (simp add: node_at_append split: option.splits)

lemma len_leaf: "children n = [] \<Longrightarrow> len n = 1"
  by (cases n) (simp add: len_def)

lemma ascend_spec:
  assumes "node_at t (rev rp) = Some n" and "u \<le> int (len t)"
  shows "\<exists>node pv m s. ascend t u rp prev = Inr (node, pv) \<and> rev rp = node @ s
           \<and> node_at t node = Some m \<and> u \<le> int (len m)
           \<and> (if int (len n) < u
               then \<exists>pp m'. pv = Some (pp, len m') \<and> node_at t pp = Some m'
                      \<and> int (len m') < u \<and> pp \<noteq> [] \<and> node = butlast pp
                      \<and> (\<exists>s'. rev rp = pp @ s')
               else pv = prev \<and> node = rev rp)"
  using assms
proof (induction rp arbitrary: prev n)
  case Nil
  then show ?case by simp
next
  case (Cons i rp)
  from Cons.prems(1) obtain m0 where m0: "node_at t (rev rp) = Some m0"
    using node_at_prefix [of t "rev rp" "[i]" n] by auto
  show ?case
  proof (cases "int (len n) < u")
    case False
    with Cons.prems show ?thesis by simp
  next
    case True
    from Cons.IH [OF m0 Cons.prems(2), of "Some (rev (i # rp), len n)"]
    obtain node pv m s where
      a: "ascend t u rp (Some (rev (i # rp), len n)) = Inr (node, pv)"
      and s: "rev rp = node @ s"
      and m: "node_at t node = Some m" "u \<le> int (len m)"
      and c: "if int (len m0) < u
               then \<exists>pp m'. pv = Some (pp, len m') \<and> node_at t pp = Some m'
                      \<and> int (len m') < u \<and> pp \<noteq> [] \<and> node = butlast pp
                      \<and> (\<exists>s'. rev rp = pp @ s')
               else pv = Some (rev (i # rp), len n) \<and> node = rev rp"
      by blast
    have eq: "ascend t u (i # rp) prev = Inr (node, pv)"
      using True Cons.prems(1) a by simp
    have pre: "rev (i # rp) = node @ (s @ [i])" using s by simp
    have "\<exists>pp m'. pv = Some (pp, len m') \<and> node_at t pp = Some m'
                      \<and> int (len m') < u \<and> pp \<noteq> [] \<and> node = butlast pp
                      \<and> (\<exists>s'. rev (i # rp) = pp @ s')"
    proof (cases "int (len m0) < u")
      case True
      with c obtain pp m' s' where "pv = Some (pp, len m')" "node_at t pp = Some m'"
        "int (len m') < u" "pp \<noteq> []" "node = butlast pp" "rev rp = pp @ s'" by auto
      then show ?thesis by (intro exI [of _ pp] exI [of _ m'] exI [of _ "s' @ [i]"]) simp
    next
      case False
      with c have "pv = Some (rev (i # rp), len n)" "node = rev rp" by auto
      with Cons.prems(1) True show ?thesis
        by (intro exI [of _ "rev (i # rp)"] exI [of _ n] exI [of _ "[]"]) simp
    qed
    with eq pre m True show ?thesis by auto
  qed
qed


lemma search_first_name:
  assumes "search_first t q = Inr p"
  shows "\<exists>n. node_at t p = Some n \<and> name n = q"
proof -
  from assms obtain ps where
    "filter (\<lambda>p. map_option name (node_at t p) = Some q) (levelorder t) = p # ps"
    by (auto simp: search_first_def split: list.splits)
  then have "p \<in> set (filter (\<lambda>p. map_option name (node_at t p) = Some q) (levelorder t))"
    by simp
  then show ?thesis by auto
qed

lemma main_narrow_sound:
  assumes big: "u < int (len t)" and found: "search_first t q = Inr p"
    and leaf: "node_at t p = Some n" "children n = []" and u2: "2 \<le> u"
  shows "\<exists>r p1 p2 node_prev m m'.
           main_narrow t q (Some u) nL = Inr r
         \<and> p = p1 @ p2 \<and> node_at t p1 = Some r \<and> node_at r p2 = Some n
         \<and> node_at t node_prev = Some m' \<and> node_at t (butlast node_prev) = Some m
         \<and> int (len m') < u \<and> u \<le> int (len m)
         \<and> r = (if (case nL of None \<Rightarrow> True | Some l \<Rightarrow> l \<le> int (len m')) then m' else m)"
proof -
  have n1: "int (len n) < u" using len_leaf [OF leaf(2)] u2 by simp
  have "\<exists>node pv m s. ascend t u (rev p) None = Inr (node, pv) \<and> p = node @ s
           \<and> node_at t node = Some m \<and> u \<le> int (len m)
           \<and> (\<exists>pp m'. pv = Some (pp, len m') \<and> node_at t pp = Some m'
                      \<and> int (len m') < u \<and> pp \<noteq> [] \<and> node = butlast pp
                      \<and> (\<exists>s'. p = pp @ s'))"
    using ascend_spec [of t "rev p" n u None] leaf(1) big n1 by simp
  then obtain node pv m s pp m' s' where
    a: "ascend t u (rev p) None = Inr (node, pv)"
    and s: "p = node @ s" and m: "node_at t node = Some m" "u \<le> int (len m)"
    and pv: "pv = Some (pp, len m')" and m': "node_at t pp = Some m'" "int (len m') < u"
    and pp: "pp \<noteq> []" "node = butlast pp" "p = pp @ s'"
    by blast
  let ?c = "case nL of None \<Rightarrow> True | Some l \<Rightarrow> l \<le> int (len m')"
  let ?r = "if ?c then m' else m"
  have res: "main_narrow t q (Some u) nL = Inr ?r"
    using big found a pv m m' by (simp add: main_narrow_def)
  have "\<exists>p1 p2. p = p1 @ p2 \<and> node_at t p1 = Some ?r \<and> node_at ?r p2 = Some n"
  proof (cases ?c)
    case True
    from leaf(1) pp(3) m'(1) have "node_at m' s' = Some n"
      by (simp add: node_at_append)
    with True pp(3) m'(1) show ?thesis by auto
  next
    case False
    from leaf(1) s m(1) have "node_at m s = Some n"
      by (simp add: node_at_append)
    with False s m(1) show ?thesis by auto
  qed
  with res m m' pp(2) show ?thesis by blast
qed

text \<open>
  C10: scope narrowing is total only for upper bounds of at least 2. When the tree has
  more leaves than the upper bound and the query node is a leaf, an upper bound of at
  least 2 makes the ascent loop run at least once, so that \<open>node_prev\<close> and
  \<open>n_taxa_prev\<close> are assigned when the decision step reads them, and a subtree is
  returned; with an upper bound of 1 or less the loop body never runs, the loop ends at
  the query leaf with both variables unassigned, and the operation fails with
  \<open>UnboundLocalError\<close>.
\<close>

theorem narrow_total_iff_upper_ge_2:
  assumes big: "u < int (len t)" and found: "search_first t q = Inr p"
    and leaf: "node_at t p = Some n" "children n = []"
  shows "(2 \<le> u \<longrightarrow>
            (\<exists>node node_prev n_taxa_prev.
               ascend t u (rev p) None = Inr (node, Some (node_prev, n_taxa_prev)))
          \<and> (\<exists>r. main_narrow t q (Some u) nL = Inr r))
       \<and> (u \<le> 1 \<longrightarrow>
            ascend t u (rev p) None = Inr (p, None)
          \<and> main_narrow t q (Some u) nL = Inl UnboundLocalError)"
proof (intro conjI impI)
  assume u2: "2 \<le> u"
  have n1: "int (len n) < u" using len_leaf [OF leaf(2)] u2 by simp
  from ascend_spec [of t "rev p" n u None] leaf(1) big n1
  show "\<exists>node node_prev n_taxa_prev.
               ascend t u (rev p) None = Inr (node, Some (node_prev, n_taxa_prev))"
    by auto
  from main_narrow_sound [OF big found leaf u2, of nL]
  show "\<exists>r. main_narrow t q (Some u) nL = Inr r" by blast
next
  assume u1: "u \<le> 1"
  have n1: "\<not> int (len n) < u" using len_leaf [OF leaf(2)] u1 by simp
  from ascend_spec [of t "rev p" n u None] leaf(1) big n1
  show a: "ascend t u (rev p) None = Inr (p, None)" by auto
  show "main_narrow t q (Some u) nL = Inl UnboundLocalError"
    using big found a by (simp add: main_narrow_def)
qed

theorem narrow_total_iff_upper_ge_2_witness:
  "(2::int) < int (len tree_ABCD) \<and> 1 < int (len tree_ABCD) \<and> search_first tree_ABCD ''B'' = Inr [0, 1]
   \<and> node_at tree_ABCD [0, 1] = Some (Node ''B'' 1 []) \<and> children (Node ''B'' 1 []) = []
   \<and> (\<exists>r. main_narrow tree_ABCD ''B'' (Some 2) None = Inr r)
   \<and> main_narrow tree_ABCD ''B'' (Some 1) None = Inl UnboundLocalError"
proof -
  have l: "len tree_ABCD = 4" by (simp add: tree_ABCD_def len_def)
  have f: "search_first tree_ABCD ''B'' = Inr [0, 1]" by code_simp
  have a: "node_at tree_ABCD [0, 1] = Some (Node ''B'' 1 [])" by (simp add: tree_ABCD_def)
  have c: "children (Node ''B'' 1 []) = []" by simp
  have b2: "(2::int) < int (len tree_ABCD)" and b1: "(1::int) < int (len tree_ABCD)" using l by simp_all
  from narrow_total_iff_upper_ge_2 [OF b2 f a c, of None]
    narrow_total_iff_upper_ge_2 [OF b1 f a c, of None] l f a
  show ?thesis by simp
qed

text \<open>
  C7: for every tree with more leaves than the upper bound, scope narrowing returns a
  subtree that contains the query leaf. The code does so for upper bounds of at least 2
  (\<open>main_narrow_sound\<close>), but on the four-leaf tree \<open>((A:1,B:1):1,(C:1,D:1):1);\<close>
  with query leaf \<open>B\<close> and upper bound 1 it returns no subtree: it fails with
  \<open>UnboundLocalError\<close>.
\<close>

theorem narrow_upper_1_fails:
  "main_narrow tree_ABCD ''B'' (Some 1) None = Inl UnboundLocalError"
  by code_simp

section \<open>Properties of ortholog inference\<close>

lemma add_orthologs_species:
  "set (map fst (add_orthologs_to_file genes overlap)) = set (map gene_to_species genes) - overlap"
  by (auto simp: add_orthologs_to_file_def)

lemma ortholog_loop_total:
  "node_at t (rev rp) = Some n \<Longrightarrow>
     \<exists>ls. ortholog_loop t rp seen = Inr ls \<and> length ls = length rp"
proof (induction rp arbitrary: seen n)
  case Nil
  show ?case by simp
next
  case (Cons i rp)
  from Cons.prems obtain m where m: "node_at t (rev rp) = Some m"
    using node_at_prefix [of t "rev rp" "[i]" n] by auto
  obtain rows seen' where
    l: "ortholog_level (take i (children m) @ drop (Suc i) (children m)) seen = (rows, seen')"
    by (cases "ortholog_level (take i (children m) @ drop (Suc i) (children m)) seen")
  from Cons.IH [OF m, of seen'] obtain ls where
    "ortholog_loop t rp seen' = Inr ls" "length ls = length rp" by blast
  with m l show ?case by simp
qed

text \<open>
  Each pass of the loop applies \<open>ortholog_level\<close> to the other children of the next
  ancestor and to the species accumulated so far.
\<close>

lemma ortholog_loop_step:
  assumes "node_at t (rev rp) = Some n"
  shows "ortholog_loop t (i # rp) seen =
    (case ortholog_loop t rp
            (snd (ortholog_level (take i (children n) @ drop (Suc i) (children n)) seen)) of
       Inl e \<Rightarrow> Inl e
     | Inr rest \<Rightarrow>
         Inr (fst (ortholog_level (take i (children n) @ drop (Suc i) (children n)) seen) # rest))"
  using assms by (simp add: case_prod_beta Let_def)

text \<open>
  C6 (as amended): at every ancestor visited by the loop of \<open>write_orthologs\<close>, with
  \<open>o\<close> the size of the overlap between the accumulated species and the species of the
  sister clade and \<open>m\<close> the minimum of the two set sizes, \<open>add_orthologs_to_file\<close> is
  called if and only if \<open>o = 0\<close>, or \<open>m \<ge> 4\<close> and \<open>o = 1\<close>, or \<open>m \<ge> 9\<close> and \<open>o = 2\<close>;
  the rows written are those of the sister clade's species outside the overlap. In
  particular a sister clade of 4 species with 1 overlapping species is emitted when at
  least 4 species have been accumulated, and a sister clade of 3 species with 1
  overlapping species is never emitted.
\<close>

theorem ortholog_emission_thresholds:
  "(fst (ortholog_level n_other seen) \<noteq> None \<longleftrightarrow>
      card (seen \<inter> species_below n_other) = 0
    \<or> (4 \<le> min (card (species_below n_other)) (card seen)
        \<and> card (seen \<inter> species_below n_other) = 1)
    \<or> (9 \<le> min (card (species_below n_other)) (card seen)
        \<and> card (seen \<inter> species_below n_other) = 2))
 \<and> (\<forall>rows. fst (ortholog_level n_other seen) = Some rows \<longrightarrow>
        set (map fst rows) = species_below n_other - seen)
 \<and> (card (species_below n_other) = 4 \<and> card (seen \<inter> species_below n_other) = 1
      \<and> 4 \<le> card seen \<longrightarrow> fst (ortholog_level n_other seen) \<noteq> None)
 \<and> (card (species_below n_other) = 3 \<and> card (seen \<inter> species_below n_other) = 1
      \<longrightarrow> fst (ortholog_level n_other seen) = None)"
proof (intro conjI allI impI)
  show "fst (ortholog_level n_other seen) \<noteq> None \<longleftrightarrow>
      card (seen \<inter> species_below n_other) = 0
    \<or> (4 \<le> min (card (species_below n_other)) (card seen)
        \<and> card (seen \<inter> species_below n_other) = 1)
    \<or> (9 \<le> min (card (species_below n_other)) (card seen)
        \<and> card (seen \<inter> species_below n_other) = 2)"
    by (simp add: ortholog_level_def Let_def)
next
  fix rows
  assume "fst (ortholog_level n_other seen) = Some rows"
  then have "rows = add_orthologs_to_file (concat (map get_leaf_names n_other))
                      (seen \<inter> species_below n_other)"
    by (simp add: ortholog_level_def Let_def split: if_splits)
  then have "set (map fst rows) =
      set (map gene_to_species (concat (map get_leaf_names n_other)))
        - (seen \<inter> species_below n_other)"
    by (simp only: add_orthologs_species)
  then show "set (map fst rows) = species_below n_other - seen"
    unfolding species_below_def by blast
next
  assume "card (species_below n_other) = 4 \<and> card (seen \<inter> species_below n_other) = 1
      \<and> 4 \<le> card seen"
  then show "fst (ortholog_level n_other seen) \<noteq> None"
    by (simp add: ortholog_level_def Let_def)
next
  assume "card (species_below n_other) = 3 \<and> card (seen \<inter> species_below n_other) = 1"
  then show "fst (ortholog_level n_other seen) = None"
    by (simp add: ortholog_level_def Let_def)
qed

theorem ortholog_emission_thresholds_witness:
  "card (species_below [clade_4]) = 4
   \<and> card ({''a_a'', ''b_b'', ''c_c'', ''d_d''} \<inter> species_below [clade_4]) = 1
   \<and> 4 \<le> card {''a_a'', ''b_b'', ''c_c'', ''d_d''}
   \<and> fst (ortholog_level [clade_4] {''a_a'', ''b_b'', ''c_c'', ''d_d''}) \<noteq> None
   \<and> card (species_below [clade_3]) = 3
   \<and> card ({''a_a'', ''b_b'', ''c_c'', ''d_d''} \<inter> species_below [clade_3]) = 1
   \<and> fst (ortholog_level [clade_3] {''a_a'', ''b_b'', ''c_c'', ''d_d''}) = None
   \<and> fst (ortholog_level [clade_4] {''a_a'', ''b_b'', ''c_c'', ''d_d''})
       = Some [(''e_e'', ''e_e_1''), (''f_f'', ''f_f_1''), (''g_g'', ''g_g_1'')]
   \<and> set (map fst [(''e_e'', ''e_e_1''), (''f_f'', ''f_f_1''), (''g_g'', ''g_g_1'')])
       = species_below [clade_4] - {''a_a'', ''b_b'', ''c_c'', ''d_d''}"
proof -
  let ?S = "{''a_a'', ''b_b'', ''c_c'', ''d_d''}"
  have c4: "card (species_below [clade_4]) = 4" by code_simp
  have o4: "card (?S \<inter> species_below [clade_4]) = 1" by code_simp
  have s4: "4 \<le> card ?S" by code_simp
  have c3: "card (species_below [clade_3]) = 3" by code_simp
  have o3: "card (?S \<inter> species_below [clade_3]) = 1" by code_simp
  have r4: "fst (ortholog_level [clade_4] ?S)
       = Some [(''e_e'', ''e_e_1''), (''f_f'', ''f_f_1''), (''g_g'', ''g_g_1'')]"
    by code_simp
  from ortholog_emission_thresholds [of "[clade_4]" ?S]
    ortholog_emission_thresholds [of "[clade_3]" ?S] c4 o4 s4 c3 o3 r4
  show ?thesis by simp
qed

text \<open>
  C6 as stated fails: a sister clade of 4 species with 1 overlapping species is not
  emitted when fewer than 4 species have been accumulated. In \<open>tree_overlap_1_4\<close> the
  query has accumulated the single species \<open>a_a\<close> when it meets \<open>clade_4\<close>, so that
  \<open>m = 1\<close> and \<open>o = 1\<close>, and nothing is written at that level.
\<close>

theorem overlap_1_of_4_not_emitted:
  "card (species_below [clade_4]) = 4
   \<and> card ({''a_a''} \<inter> species_below [clade_4]) = 1
   \<and> fst (ortholog_level [clade_4] {''a_a''}) = None
   \<and> ortholog_levels tree_overlap_1_4 ''q_q_0'' = Inr [Some [(''a_a'', ''a_a_1'')], None]"
  by code_simp

lemma ortholog_levels_4_4:
  "ortholog_levels tree_overlap_4_4 ''q_q_0'' =
     Inr [Some [(''a_a'', ''a_a_1''), (''b_b'', ''b_b_1''), (''c_c'', ''c_c_1''), (''d_d'', ''d_d_1'')],
          Some [(''e_e'', ''e_e_1''), (''f_f'', ''f_f_1''), (''g_g'', ''g_g_1'')]]"
  by code_simp

lemma ortholog_levels_4_3:
  "ortholog_levels tree_overlap_4_3 ''q_q_0'' =
     Inr [Some [(''a_a'', ''a_a_1''), (''b_b'', ''b_b_1''), (''c_c'', ''c_c_1''), (''d_d'', ''d_d_1'')],
          None]"
  by code_simp

section \<open>Properties of tree decomposition\<close>

declare remove_subtrees.simps [simp del]

subsection \<open>Paths, traversals and the first loop\<close>

lemma node_at_set_name_other:
  "\<not> prefix p q \<Longrightarrow> node_at (set_name t q new) p = node_at t p"
proof (induction q arbitrary: t p)
  case Nil
  then show ?case by (cases t; cases p) auto
next
  case (Cons j q)
  obtain nm d cs where t: "t = Node nm d cs" by (cases t)
  from Cons.prems obtain i p' where p: "p = i # p'" by (cases p) auto
  show ?case
  proof (cases "i = j")
    case True
    with Cons.prems p have "\<not> prefix p' q" by simp
    from Cons.IH [OF this] True t p show ?thesis by simp
  next
    case False
    with t p show ?thesis by simp
  qed
qed

lemma traverse_list_heads:
  "p \<in> set (traverse_list f i cs) \<Longrightarrow> \<exists>j p'. p = j # p' \<and> i \<le> j"
proof (induction cs arbitrary: i)
  case Nil
  then show ?case by simp
next
  case (Cons c cs)
  from Cons.prems consider "p \<in> (#) i ` set (traverse_preorder f c)"
    | "p \<in> set (traverse_list f (Suc i) cs)" by auto
  then show ?case
  proof cases
    case 1
    then show ?thesis by auto
  next
    case 2
    from Cons.IH [OF this] show ?thesis by (auto intro: Suc_leD)
  qed
qed

lemma ordered_append:
  "ordered (xs @ ys) \<longleftrightarrow> ordered xs \<and> ordered ys \<and> (\<forall>x \<in> set xs. \<forall>y \<in> set ys. \<not> prefix y x)"
  by (induction xs) auto

lemma ordered_map_Cons: "ordered (map ((#) i) ps) = ordered ps"
  by (induction ps) auto

lemma ordered_traverse:
  "ordered (traverse_preorder f t)" and "ordered (traverse_list f i cs)"
proof (induction f t and f i cs rule: traverse_preorder_traverse_list.induct)
  case (1 f nm d cs)
  have "\<not> prefix q []" if "q \<in> set (traverse_list f 0 cs)" for q
    using traverse_list_heads [OF that] by auto
  with 1 show ?case by auto
next
  case (2 f i)
  show ?case by simp
next
  case (3 f i c cs)
  have "\<not> prefix y x" if "x \<in> set (map ((#) i) (traverse_preorder f c))"
    and "y \<in> set (traverse_list f (Suc i) cs)" for x y
  proof -
    from that(1) obtain x' where "x = i # x'" by auto
    moreover from traverse_list_heads [OF that(2)] obtain j y' where "y = j # y'" "Suc i \<le> j"
      by auto
    ultimately show ?thesis by auto
  qed
  with 3 show ?case by (simp add: ordered_append ordered_map_Cons)
qed

lemma traverse_valid:
  "\<forall>p \<in> set (traverse_preorder f t). node_at t p \<noteq> None"
  "\<forall>p \<in> set (traverse_list f i cs).
      \<exists>j p'. p = (i + j) # p' \<and> j < length cs \<and> node_at (cs ! j) p' \<noteq> None"
proof (induction f t and f i cs rule: traverse_preorder_traverse_list.induct)
  case (1 f nm d cs)
  show ?case
  proof
    fix p assume "p \<in> set (traverse_preorder f (Node nm d cs))"
    then consider "p = []" | "\<not> f (Node nm d cs)" "p \<in> set (traverse_list f 0 cs)"
      by (auto split: if_splits)
    then show "node_at (Node nm d cs) p \<noteq> None"
    proof cases
      case 1
      then show ?thesis by simp
    next
      case 2
      with "1.IH" obtain j p' where "p = j # p'" "j < length cs" "node_at (cs ! j) p' \<noteq> None"
        by fastforce
      then show ?thesis by simp
    qed
  qed
next
  case (2 f i)
  show ?case by simp
next
  case (3 f i c cs)
  show ?case
  proof
    fix p assume "p \<in> set (traverse_list f i (c # cs))"
    then consider p' where "p = i # p'" "p' \<in> set (traverse_preorder f c)"
      | "p \<in> set (traverse_list f (Suc i) cs)" by auto
    then show "\<exists>j p'. p = (i + j) # p' \<and> j < length (c # cs) \<and> node_at ((c # cs) ! j) p' \<noteq> None"
    proof cases
      case 1
      with "3.IH"(1) have "node_at c p' \<noteq> None" by blast
      with 1 show ?thesis by (intro exI [of _ 0] exI [of _ p']) simp
    next
      case 2
      with "3.IH"(2) obtain j p' where "p = (Suc i + j) # p'" "j < length cs"
        "node_at (cs ! j) p' \<noteq> None" by blast
      then show ?thesis by (intro exI [of _ "Suc j"] exI [of _ p']) simp
    qed
  qed
qed

text \<open>
  Renaming a node changes neither leaf counts nor what the traversal of the first loop
  yields, which is why \<open>first_pass\<close> may take the traversal of the tree as it is before
  the loop.
\<close>

lemma length_concat_update:
  "i < length cs \<Longrightarrow> length (g c') = length (g (cs ! i)) \<Longrightarrow>
     length (concat (map g (cs[i := c']))) = length (concat (map g cs))"
proof (induction cs arbitrary: i)
  case Nil
  then show ?case by simp
next
  case (Cons c cs)
  then show ?case by (cases i) auto
qed

lemma traverse_list_update:
  "i < length cs \<Longrightarrow> traverse_preorder f c' = traverse_preorder f (cs ! i) \<Longrightarrow>
     traverse_list f k (cs[i := c']) = traverse_list f k cs"
proof (induction cs arbitrary: i k)
  case Nil
  then show ?case by simp
next
  case (Cons c cs)
  then show ?case by (cases i) auto
qed

lemma set_name_shape:
  "len (set_name t q new) = len t
   \<and> traverse_preorder (stop_fn n_taxa) (set_name t q new) = traverse_preorder (stop_fn n_taxa) t"
proof (induction q arbitrary: t)
  case Nil
  show ?case by (cases t) (simp add: len_def stop_fn_def)
next
  case (Cons i q)
  obtain nm d cs where t: "t = Node nm d cs" by (cases t)
  show ?case
  proof (cases "i < length cs")
    case False
    with t show ?thesis by simp
  next
    case True
    let ?c = "set_name (cs ! i) q new"
    from Cons.IH [of "cs ! i"] have l: "length (get_leaf_names ?c) = length (get_leaf_names (cs ! i))"
      and tr: "traverse_preorder (stop_fn n_taxa) ?c = traverse_preorder (stop_fn n_taxa) (cs ! i)"
      by (simp_all add: len_def)
    from True have ne: "cs \<noteq> []" "cs[i := ?c] \<noteq> []" by auto
    have l': "len (Node nm d (cs[i := ?c])) = len (Node nm d cs)"
      using ne length_concat_update [OF True l] by (simp add: len_def)
    then have "stop_fn n_taxa (Node nm d (cs[i := ?c])) = stop_fn n_taxa (Node nm d cs)"
      by (simp add: stop_fn_def)
    moreover have "traverse_list (stop_fn n_taxa) 0 (cs[i := ?c]) = traverse_list (stop_fn n_taxa) 0 cs"
      using traverse_list_update [OF True tr] .
    ultimately show ?thesis using t True l' by simp
  qed
qed

lemma for_each_invariant:
  assumes "for_each body xs s = Inr s'" and "P s"
    and "\<And>x s s'. P s \<Longrightarrow> body x s = Inr s' \<Longrightarrow> P s'"
  shows "P s'"
  using assms(1,2)
proof (induction xs arbitrary: s)
  case Nil
  then show ?case by simp
next
  case (Cons x xs)
  from Cons.prems(1) obtain s1 where s1: "body x s = Inr s1" "for_each body xs s1 = Inr s'"
    by (auto split: sum.splits)
  from assms(3) [OF Cons.prems(2) s1(1)] have "P s1" .
  from Cons.IH [OF s1(2) this] show ?case .
qed



lemma with_outgroup_Inr:
  assumes "with_outgroup SeqLists t p n = Inr (nwk, msa)"
  shows "\<exists>outgrp d. choose_outgroup SeqLists t p = Inr outgrp
           \<and> get_distance t p outgrp = Inr d \<and> dist n < d
           \<and> nwk = (n, Some (''SHOOTOUTGROUP_'' @ outgrp, d - dist n))
           \<and> msa = WriteSeqsToFasta SeqLists (get_leaf_names n)"
  using assms by (auto simp: with_outgroup_def Let_def split: sum.splits if_splits)

lemma visit_Inr:
  assumes "visit SeqLists n_taxa q_outgroup p s = Inr s'"
  shows "\<exists>n. node_at (tree s) p = Some n
         \<and> (if int (len n) \<le> n_taxa
            then q_outgroup \<and> (\<exists>nwk msa. with_outgroup SeqLists (tree s) p n = Inr (nwk, msa)
                   \<and> s' = s\<lparr> n_profile := n_profile s + min 5 (len n),
                            msa_files := msa_files s @ [(i_part s, msa)],
                            tree_files := tree_files s @ [(i_part s, nwk)],
                            outfile_bound := True,
                            tree := set_name (tree s) p (part_name (i_part s) (len n)),
                            sizes := sizes s @ [len n],
                            i_part := i_part s + 1 \<rparr>)
            else s' = s)"
  using assms
  by (auto simp: visit_def Let_def without_outgroup_def split: option.splits sum.splits if_splits)

lemma first_loop_files:
  assumes "for_each (visit SeqLists n_taxa q_outgroup) ps s = Inr s'" and "ordered ps"
    and "\<forall>p \<in> set ps. node_at (tree s) p = node_at t0 p"
  shows "map (\<lambda>f. fst (snd f)) (tree_files s')
           = map (\<lambda>f. fst (snd f)) (tree_files s) @ List.map_filter (boundary n_taxa t0) ps"
  using assms
proof (induction ps arbitrary: s)
  case Nil
  then show ?case by (simp add: map_filter_simps)
next
  case (Cons p ps)
  from Cons.prems(1) obtain s1 where
    v: "visit SeqLists n_taxa q_outgroup p s = Inr s1"
    and r: "for_each (visit SeqLists n_taxa q_outgroup) ps s1 = Inr s'"
    by (auto split: sum.splits)
  from Cons.prems(2) have o: "ordered ps" and np: "\<forall>q \<in> set ps. \<not> prefix q p" by simp_all
  from visit_Inr [OF v] obtain n where n: "node_at (tree s) p = Some n"
    and c: "if int (len n) \<le> n_taxa
            then q_outgroup \<and> (\<exists>nwk msa. with_outgroup SeqLists (tree s) p n = Inr (nwk, msa)
                   \<and> s1 = s\<lparr> n_profile := n_profile s + min 5 (len n),
                            msa_files := msa_files s @ [(i_part s, msa)],
                            tree_files := tree_files s @ [(i_part s, nwk)],
                            outfile_bound := True,
                            tree := set_name (tree s) p (part_name (i_part s) (len n)),
                            sizes := sizes s @ [len n],
                            i_part := i_part s + 1 \<rparr>)
            else s1 = s"
    by blast
  from n Cons.prems(3) have n0: "node_at t0 p = Some n" by simp
  show ?case
  proof (cases "int (len n) \<le> n_taxa")
    case False
    with c have "s1 = s" by simp
    with Cons.IH [OF r o] Cons.prems(3) False n0 show ?thesis
      by (simp add: map_filter_simps boundary_def)
  next
    case True
    with c obtain nwk msa where w: "with_outgroup SeqLists (tree s) p n = Inr (nwk, msa)"
      and t1: "tree s1 = set_name (tree s) p (part_name (i_part s) (len n))"
      and f1: "tree_files s1 = tree_files s @ [(i_part s, nwk)]"
      by auto
    from with_outgroup_Inr [OF w] have nwk: "fst nwk = n" by auto
    have "\<forall>q \<in> set ps. node_at (tree s1) q = node_at t0 q"
      using np Cons.prems(3) t1 by (simp add: node_at_set_name_other)
    from Cons.IH [OF r o this] f1 nwk True n0 show ?thesis
      by (simp add: map_filter_simps boundary_def)
  qed
qed

lemma map_filter_append:
  "List.map_filter g (xs @ ys) = List.map_filter g xs @ List.map_filter g ys"
  by (simp add: List.map_filter_def)

lemma map_filter_map: "List.map_filter g (map h xs) = List.map_filter (g \<circ> h) xs"
  by (simp add: List.map_filter_def comp_def filter_map)

lemma boundary_child:
  "boundary n_taxa (Node nm d (pre @ c # cs)) (length pre # p) = boundary n_taxa c p"
  by (simp add: boundary_def nth_append)

lemma boundary_nodes_list:
  "List.map_filter (boundary n_taxa (Node nm d (pre @ cs)))
       (traverse_list (stop_fn n_taxa) (length pre) cs)
     = concat (map (boundary_nodes n_taxa) cs)"
proof (induction cs arbitrary: pre)
  case Nil
  show ?case by (simp add: map_filter_simps)
next
  case (Cons c cs)
  have "List.map_filter (boundary n_taxa (Node nm d (pre @ c # cs)))
          (map ((#) (length pre)) (traverse_preorder (stop_fn n_taxa) c))
        = boundary_nodes n_taxa c"
    by (simp add: map_filter_map comp_def boundary_child boundary_nodes_def)
  moreover have "List.map_filter (boundary n_taxa (Node nm d (pre @ c # cs)))
          (traverse_list (stop_fn n_taxa) (Suc (length pre)) cs)
        = concat (map (boundary_nodes n_taxa) cs)"
    using Cons.IH [of "pre @ [c]"] by simp
  ultimately show ?case by (simp add: map_filter_append)
qed

lemma boundary_nodes_Node:
  "boundary_nodes n_taxa (Node nm d cs) =
     (if int (len (Node nm d cs)) \<le> n_taxa then [Node nm d cs]
      else concat (map (boundary_nodes n_taxa) cs))"
proof -
  have "boundary_nodes n_taxa (Node nm d cs) =
          List.map_filter (boundary n_taxa (Node nm d cs))
            ([] # (if int (len (Node nm d cs)) \<le> n_taxa then []
                   else traverse_list (stop_fn n_taxa) 0 cs))"
    by (simp add: boundary_nodes_def stop_fn_def)
  also have "\<dots> = (if int (len (Node nm d cs)) \<le> n_taxa then [Node nm d cs]
      else concat (map (boundary_nodes n_taxa) cs))"
    using boundary_nodes_list [where pre = "[]" and cs = cs and n_taxa = n_taxa
        and nm = nm and d = d]
    by (simp add: map_filter_simps boundary_def)
  finally show ?thesis .
qed

lemma boundary_nodes_cover:
  "1 \<le> n_taxa \<Longrightarrow> concat (map get_leaf_names (boundary_nodes n_taxa t)) = get_leaf_names t"
proof (induction t)
  case (Node nm d cs)
  show ?case
  proof (cases "int (len (Node nm d cs)) \<le> n_taxa")
    case True
    then show ?thesis by (simp add: boundary_nodes_Node)
  next
    case False
    with Node.prems have ne: "cs \<noteq> []" by (auto simp: len_def)
    have "concat (map get_leaf_names (concat (map (boundary_nodes n_taxa) xs)))
            = concat (map get_leaf_names xs)" if "set xs \<subseteq> set cs" for xs
      using that Node.IH Node.prems by (induction xs) auto
    from this [of cs] False ne show ?thesis by (simp add: boundary_nodes_Node)
  qed
qed


lemma get_leaf_names_nonempty: "get_leaf_names t \<noteq> []"
proof (induction t)
  case (Node nm d cs)
  show ?case
  proof (cases cs)
    case Nil
    then show ?thesis by simp
  next
    case (Cons c cs')
    with Node.IH [of c] show ?thesis by simp
  qed
qed

lemma first_pass_boundary_nodes:
  assumes "first_pass SeqLists n_taxa q_outgroup t = Inr s"
  shows "map (\<lambda>f. fst (snd f)) (tree_files s) = boundary_nodes n_taxa t"
  using first_loop_files [OF assms [unfolded first_pass_def] ordered_traverse(1), of t]
  by (simp add: boundary_nodes_def initial_state_def)

lemma split_tree_Inr:
  assumes "split_tree t SeqLists n_taxa q_outgroup = Inr r" and "n_taxa < int (len t)"
  shows "\<exists>s. first_pass SeqLists n_taxa q_outgroup t = Inr s
           \<and> profiles r = n_profile s \<and> sub_trees r = tree_files s \<and> sub_msas r = msa_files s"
  using assms by (auto simp: split_tree_def Let_def split: sum.splits if_splits)

lemma first_pass_profiles:
  assumes "first_pass SeqLists n_taxa q_outgroup t = Inr s"
  shows "n_profile s = sum_list (map (\<lambda>f. min 5 (len (fst (snd f)))) (tree_files s))
       \<and> sizes s = map (\<lambda>f. len (fst (snd f))) (tree_files s)
       \<and> map fst (tree_files s) = [0..<i_part s]
       \<and> map fst (msa_files s) = [0..<i_part s]"
proof (rule for_each_invariant [OF assms [unfolded first_pass_def]])
  show "n_profile (initial_state t)
        = sum_list (map (\<lambda>f. min 5 (len (fst (snd f))))
           (tree_files (initial_state t)))
       \<and> sizes (initial_state t)
        = map (\<lambda>f. len (fst (snd f)))
           (tree_files (initial_state t))
       \<and> map fst (tree_files (initial_state t))
        = [0..<i_part (initial_state t)]
       \<and> map fst (msa_files (initial_state t))
        = [0..<i_part (initial_state t)]"
    by (simp add: initial_state_def)
next
  fix p s s'
  assume inv: "n_profile s = sum_list (map (\<lambda>f. min 5 (len (fst (snd f)))) (tree_files s))
       \<and> sizes s = map (\<lambda>f. len (fst (snd f))) (tree_files s)
       \<and> map fst (tree_files s) = [0..<i_part s]
       \<and> map fst (msa_files s) = [0..<i_part s]"
    and v: "visit SeqLists n_taxa q_outgroup p s = Inr s'"
  from visit_Inr [OF v] obtain n where
    c: "if int (len n) \<le> n_taxa
            then q_outgroup \<and> (\<exists>nwk msa. with_outgroup SeqLists (tree s) p n = Inr (nwk, msa)
                   \<and> s' = s\<lparr> n_profile := n_profile s + min 5 (len n),
                            msa_files := msa_files s @ [(i_part s, msa)],
                            tree_files := tree_files s @ [(i_part s, nwk)],
                            outfile_bound := True,
                            tree := set_name (tree s) p (part_name (i_part s) (len n)),
                            sizes := sizes s @ [len n],
                            i_part := i_part s + 1 \<rparr>)
            else s' = s"
    by blast
  show "n_profile s' = sum_list (map (\<lambda>f. min 5 (len (fst (snd f)))) (tree_files s'))
       \<and> sizes s' = map (\<lambda>f. len (fst (snd f))) (tree_files s')
       \<and> map fst (tree_files s') = [0..<i_part s']
       \<and> map fst (msa_files s') = [0..<i_part s']"
  proof (cases "int (len n) \<le> n_taxa")
    case False
    with c inv show ?thesis by simp
  next
    case True
    with c obtain nwk msa where w: "with_outgroup SeqLists (tree s) p n = Inr (nwk, msa)"
      and s': "s' = s\<lparr> n_profile := n_profile s + min 5 (len n),
                            msa_files := msa_files s @ [(i_part s, msa)],
                            tree_files := tree_files s @ [(i_part s, nwk)],
                            outfile_bound := True,
                            tree := set_name (tree s) p (part_name (i_part s) (len n)),
                            sizes := sizes s @ [len n],
                            i_part := i_part s + 1 \<rparr>"
      by auto
    from with_outgroup_Inr [OF w] have "fst nwk = n" by auto
    with s' inv show ?thesis by simp
  qed
qed


lemma WriteSeqsToFasta_names: "set (map fst (WriteSeqsToFasta SeqLists seqs)) \<subseteq> set seqs"
  by (auto simp: WriteSeqsToFasta_def split: option.splits)

lemma with_outgroup_msa_names:
  assumes "with_outgroup SeqLists t p n = Inr (nwk, msa)"
  shows "set (map fst msa) \<subseteq> set (get_leaf_names n)"
  using with_outgroup_Inr [OF assms] WriteSeqsToFasta_names [of SeqLists "get_leaf_names n"]
  by auto

lemma for_each_without_outgroup:
  assumes "\<forall>p \<in> set ps. node_at (tree s) p \<noteq> None" and "\<not> outfile_bound s"
  shows "for_each (visit SeqLists n_taxa False) ps s =
           (if List.map_filter (boundary n_taxa (tree s)) ps = [] then Inr s
            else Inl UnboundLocalError)"
  using assms
proof (induction ps)
  case Nil
  show ?case by (simp add: map_filter_simps)
next
  case (Cons p ps)
  from Cons.prems(1) obtain n where n: "node_at (tree s) p = Some n" by auto
  show ?case
  proof (cases "int (len n) \<le> n_taxa")
    case True
    with n Cons.prems(2) show ?thesis
      by (simp add: visit_def without_outgroup_def map_filter_simps boundary_def)
  next
    case False
    with n have "visit SeqLists n_taxa False p s = Inr s" by (simp add: visit_def)
    with Cons False n show ?thesis by (simp add: map_filter_simps boundary_def)
  qed
qed

lemma split_tree_without_outgroup:
  assumes "1 \<le> n_taxa" and "n_taxa < int (len t)"
  shows "split_tree t SeqLists n_taxa False = Inl UnboundLocalError"
proof -
  have "boundary_nodes n_taxa t \<noteq> []"
    using boundary_nodes_cover [OF assms(1), of t] get_leaf_names_nonempty [of t] by auto
  then have "first_pass SeqLists n_taxa False t = Inl UnboundLocalError"
    using for_each_without_outgroup [of "traverse_preorder (stop_fn n_taxa) t" "initial_state t"
        SeqLists n_taxa] traverse_valid(1) [of "stop_fn n_taxa" t]
    by (simp add: first_pass_def boundary_nodes_def initial_state_def)
  with assms(2) show ?thesis by (simp add: split_tree_def)
qed

lemma detach_leaves_None: "detach_leaves c = None \<longleftrightarrow> children c = []"
  by (cases c) simp

lemma detach_leaves_children:
  assumes "detach_leaves (Node nm d cs) = Some n'"
  shows "children n' = [] \<longleftrightarrow> (\<forall>c \<in> set cs. children c = [])"
proof -
  from assms have "children n' =
      concat (map (\<lambda>c. case detach_leaves c of None \<Rightarrow> [] | Some c' \<Rightarrow> [c']) cs)"
    by (auto split: if_splits)
  then have "children n' = [] \<longleftrightarrow> (\<forall>c \<in> set cs. detach_leaves c = None)"
    by (auto split: option.splits)
  then show ?thesis by (simp add: detach_leaves_None)
qed

lemma n_gaps_Inr:
  "n_gaps SeqLists gs = Inr xs \<Longrightarrow>
     length xs = length gs
     \<and> (\<forall>j < length gs. if is_part (gs ! j) then xs ! j = float_9e99
                          else d_ngaps SeqLists (gs ! j) = Inr (xs ! j))"
proof (induction gs arbitrary: xs)
  case Nil
  then show ?case by simp
next
  case (Cons g gs)
  from Cons.prems obtain x xs' where x: "(if is_part g then Inr float_9e99 else d_ngaps SeqLists g) = Inr x"
    and xs': "n_gaps SeqLists gs = Inr xs'" and xs: "xs = x # xs'"
    by (auto split: sum.splits)
  from Cons.IH [OF xs'] have l: "length xs' = length gs"
    and r: "\<forall>j < length gs. if is_part (gs ! j) then xs' ! j = float_9e99
                          else d_ngaps SeqLists (gs ! j) = Inr (xs' ! j)" by simp_all
  have "if is_part ((g # gs) ! j) then xs ! j = float_9e99
        else d_ngaps SeqLists ((g # gs) ! j) = Inr (xs ! j)" if "j < length (g # gs)" for j
  proof (cases j)
    case 0
    with x xs show ?thesis by (auto split: if_splits)
  next
    case (Suc k)
    with that r xs show ?thesis by simp
  qed
  then have "\<forall>j < length (g # gs). if is_part ((g # gs) ! j) then xs ! j = float_9e99
                          else d_ngaps SeqLists ((g # gs) ! j) = Inr (xs ! j)"
    by blast
  moreover have "length xs = length (g # gs)" using l xs by simp
  ultimately show ?case by blast
qed

lemma first_index:
  "x \<in> set xs \<Longrightarrow>
     length (takeWhile (\<lambda>y. y \<noteq> x) xs) < length xs
     \<and> xs ! length (takeWhile (\<lambda>y. y \<noteq> x) xs) = x
     \<and> (\<forall>j < length (takeWhile (\<lambda>y. y \<noteq> x) xs). xs ! j \<noteq> x)"
proof (induction xs)
  case Nil
  then show ?case by simp
next
  case (Cons a xs)
  show ?case
  proof (cases "a = x")
    case True
    then show ?thesis by simp
  next
    case False
    with Cons.prems have "x \<in> set xs" by simp
    from Cons.IH [OF this] False show ?thesis by (auto simp: nth_Cons split: nat.splits)
  qed
qed

lemma choose_outgroup_first_min:
  assumes "choose_outgroup SeqLists t p = Inr g"
  shows "\<exists>ss gaps i. sisters t p = Inr ss
           \<and> n_gaps SeqLists (concat (map get_leaf_names ss)) = Inr gaps
           \<and> i < length gaps \<and> g = concat (map get_leaf_names ss) ! i
           \<and> (\<forall>j < length gaps. gaps ! i \<le> gaps ! j) \<and> (\<forall>j < i. gaps ! i < gaps ! j)"
proof -
  from assms obtain ss gaps x i where ss: "sisters t p = Inr ss"
    and gaps: "n_gaps SeqLists (concat (map get_leaf_names ss)) = Inr gaps"
    and x: "py_min gaps = Inr x" and i: "py_index gaps x = Inr i"
    and g: "g = concat (map get_leaf_names ss) ! i"
    by (auto simp: choose_outgroup_def Let_def split: sum.splits)
  from x have ne: "gaps \<noteq> []" and xm: "x = Min (set gaps)"
    by (auto simp: py_min_def split: if_splits)
  from i have xin: "x \<in> set gaps" and ii: "i = length (takeWhile (\<lambda>y. y \<noteq> x) gaps)"
    by (auto simp: py_index_def split: if_splits)
  from first_index [OF xin] ii have il: "i < length gaps" and xi: "gaps ! i = x"
    and before: "\<forall>j < i. gaps ! j \<noteq> x" by simp_all
  have le: "\<forall>j < length gaps. gaps ! i \<le> gaps ! j"
    using xi xm by simp
  have "gaps ! i < gaps ! j" if "j < i" for j
  proof -
    from that il have "j < length gaps" by simp
    with le have "gaps ! i \<le> gaps ! j" by simp
    moreover from before that xi have "gaps ! j \<noteq> gaps ! i" by simp
    ultimately show ?thesis by simp
  qed
  then have "\<forall>j < i. gaps ! i < gaps ! j" by blast
  with ss gaps il g le show ?thesis by blast
qed

lemma choose_outgroup_not_partition:
  assumes "choose_outgroup SeqLists t p = Inr g" and "sisters t p = Inr ss"
    and "j < length (concat (map get_leaf_names ss))"
    and "\<not> is_part (concat (map get_leaf_names ss) ! j)"
    and "d_ngaps SeqLists (concat (map get_leaf_names ss) ! j) = Inr k" and "k < float_9e99"
  shows "\<not> is_part g"
proof
  assume part: "is_part g"
  from choose_outgroup_first_min [OF assms(1)] assms(2) obtain gaps i where
    gaps: "n_gaps SeqLists (concat (map get_leaf_names ss)) = Inr gaps"
    and i: "i < length gaps" "g = concat (map get_leaf_names ss) ! i"
    and le: "\<forall>j < length gaps. gaps ! i \<le> gaps ! j"
    by auto
  from n_gaps_Inr [OF gaps] have l: "length gaps = length (concat (map get_leaf_names ss))"
    and r: "\<forall>j < length (concat (map get_leaf_names ss)).
              if is_part (concat (map get_leaf_names ss) ! j) then gaps ! j = float_9e99
              else d_ngaps SeqLists (concat (map get_leaf_names ss) ! j) = Inr (gaps ! j)"
    by blast+
  from r i l part have "gaps ! i = float_9e99" by auto
  moreover from r assms(3,4,5) have "gaps ! j = k" by auto
  moreover from le assms(3) l have "gaps ! i \<le> gaps ! j" by simp
  ultimately show False using assms(6) by simp
qed

subsection \<open>Runs on the concrete inputs\<close>


lemma len_tree_6: "len tree_6 = 6" by code_simp







lemma split_tree_15: "split_tree tree_15 msa_15 7 True = Inr result_15"
  by code_simp

lemma len_tree_15: "len tree_15 = 15" by code_simp

subsection \<open>The claims about \<open>split_tree\<close>\<close>

text \<open>
  C1: with outgroup preservation on, the per-subtree alignment file contains the
  subtree's leaf sequences plus the sequence of the chosen outgroup gene. The code
  writes only the former: for \<open>tree_6\<close> and a target of 2 the first boundary node is
  \<open>(A,B)\<close>, its tree file carries the outgroup leaf \<open>SHOOTOUTGROUP_E\<close>, and its alignment
  file holds the sequences of \<open>A\<close> and \<open>B\<close> only. In general the names in the file are
  among the leaves of the subtree (\<open>with_outgroup_msa_names\<close>).
\<close>

theorem alignment_file_lacks_outgroup:
  "map_sum id (\<lambda>r. (sub_trees r ! 0, sub_msas r ! 0)) (split_tree tree_6 msa_6 2 True)
     = Inr ((0, Node [] 1 [Node ''A'' 1 [], Node ''B'' 1 []], Some (''SHOOTOUTGROUP_E'', 3)),
            (0, [(''A'', ''AC-T''), (''B'', ''ACGT'')]))"
  by code_simp

text \<open>
  C2: with outgroup preservation off, each boundary node's subtree is serialized as-is
  and its leaf sequences are written, without failure. The code fails at the first
  boundary node instead: for \<open>tree_6\<close> and a target of 2 it raises
  \<open>UnboundLocalError\<close>, as it does for every tree larger than a target of at least 1
  (\<open>split_tree_without_outgroup\<close>).
\<close>

theorem without_outgroup_fails:
  "split_tree tree_6 msa_6 2 False = Inl UnboundLocalError"
  by code_simp

text \<open>
  C3: after the second pass every node whose name starts with the partition prefix has
  all of its children detached, also when those children are inner nodes. The code
  detaches the leaves below such a node, not its children: for \<open>tree_8\<close> and a target of
  4 each of the two partition nodes of the persisted supertree keeps its two inner
  children, now without children of their own. A partition node loses all its children
  exactly when they are all leaves (\<open>detach_leaves_children\<close>), and a partition node
  that is itself a leaf detaches itself: for \<open>tree_6\<close> and a target of 1 no partition
  leaf is left in the supertree.
\<close>

theorem partition_keeps_inner_nodes:
  "map_sum id super_tree (split_tree tree_8 msa_8 4 True)
     = Inr (Some (Node [] 0
              [Node ''PART.0-4_genes'' 1 [Node [] 1 [], Node [] 1 []],
               Node ''PART.1-4_genes'' 1 [Node [] 1 [], Node [] 1 []]]))
   \<and> map_sum id super_tree (split_tree tree_6 msa_6 1 True)
     = Inr (Some (Node [] 0 [Node [] 1 [], Node [] 1 [Node [] 1 [], Node [] 1 []]]))"
  by code_simp






text \<open>
  C8: a tree with at most \<open>n_taxa\<close> leaves is written as a single subtree and
  \<open>min(5, leaf_count)\<close> is returned at once, with no split and no outgroup; for a
  larger tree the subtrees written are exactly the boundary nodes and the returned
  profile count is the sum of \<open>min(5, leaf_count)\<close> over them, so that boundary nodes
  with 3, 7 and 5 leaves give 13.
\<close>

theorem profile_count:
  "(int (len t) \<le> n_taxa \<longrightarrow>
      split_tree t SeqLists n_taxa q_outgroup =
        Inr \<lparr> profiles = min 5 (len t), sub_trees = [(0, (t, None))], sub_msas = [],
              super_tree = None \<rparr>)
 \<and> (n_taxa < int (len t) \<and> split_tree t SeqLists n_taxa q_outgroup = Inr r \<longrightarrow>
      map (\<lambda>f. fst (snd f)) (sub_trees r) = boundary_nodes n_taxa t
    \<and> profiles r = sum_list (map (\<lambda>n. min 5 (len n)) (boundary_nodes n_taxa t))
    \<and> (map len (boundary_nodes n_taxa t) = [3, 7, 5] \<longrightarrow> profiles r = 13))"
proof (intro conjI impI)
  assume "int (len t) \<le> n_taxa"
  then show "split_tree t SeqLists n_taxa q_outgroup =
        Inr \<lparr> profiles = min 5 (len t), sub_trees = [(0, (t, None))], sub_msas = [],
              super_tree = None \<rparr>"
    by (simp add: split_tree_def)
next
  assume a: "n_taxa < int (len t) \<and> split_tree t SeqLists n_taxa q_outgroup = Inr r"
  then obtain s where s: "first_pass SeqLists n_taxa q_outgroup t = Inr s"
    and r: "profiles r = n_profile s" "sub_trees r = tree_files s"
    using split_tree_Inr [of t SeqLists n_taxa q_outgroup r] by blast
  show b: "map (\<lambda>f. fst (snd f)) (sub_trees r) = boundary_nodes n_taxa t"
    using first_pass_boundary_nodes [OF s] r by simp
  have "profiles r = sum_list (map (\<lambda>f. min 5 (len (fst (snd f)))) (sub_trees r))"
    using first_pass_profiles [OF s] r by simp
  also have "\<dots> = sum_list (map (\<lambda>n. min 5 (len n)) (map (\<lambda>f. fst (snd f)) (sub_trees r)))"
    by (simp add: comp_def)
  finally show p: "profiles r = sum_list (map (\<lambda>n. min 5 (len n)) (boundary_nodes n_taxa t))"
    using b by simp
  assume "map len (boundary_nodes n_taxa t) = [3, 7, 5]"
  then have "map (\<lambda>n. min 5 (len n)) (boundary_nodes n_taxa t) = map (min 5) [3, 7, 5]"
    by (metis (no_types, lifting) map_map comp_def map_eq_conv)
  with p show "profiles r = 13" by simp
qed

theorem profile_count_witness:
  "int (len tree_6) \<le> 6
   \<and> split_tree tree_6 msa_6 6 False =
        Inr \<lparr> profiles = 5, sub_trees = [(0, (tree_6, None))], sub_msas = [],
              super_tree = None \<rparr>
   \<and> 7 < int (len tree_15) \<and> split_tree tree_15 msa_15 7 True = Inr result_15
   \<and> map len (boundary_nodes 7 tree_15) = [3, 7, 5]
   \<and> map (\<lambda>f. len (fst (snd f))) (sub_trees result_15) = [3, 7, 5]
   \<and> profiles result_15 = 13"
proof -
  have l6: "int (len tree_6) \<le> 6" by (simp add: len_tree_6)
  have l15: "7 < int (len tree_15)" by (simp add: len_tree_15)
  have b: "map len (boundary_nodes 7 tree_15) = [3, 7, 5]" by code_simp
  have c: "map (\<lambda>f. len (fst (snd f))) (sub_trees result_15) = [3, 7, 5]" by code_simp
  from profile_count [of tree_6 6 msa_6 False] profile_count [of tree_15 7 msa_15 True result_15]
    l6 l15 b c split_tree_15 len_tree_6
  show ?thesis by simp
qed

text \<open>
  C9: partition leaves of the sister clade are excluded as outgroup candidates, for
  every input, also when all leaves of the sister clade are partition leaves. The code
  ranks partition leaves last instead of excluding them, and when every sister leaf is
  a partition leaf it chooses the first of them: for the boundary node \<open>B\<close> whose only
  sister has been renamed to \<open>PART.0-1_genes\<close> the chosen outgroup is
  \<open>PART.0-1_genes\<close>, and the run on \<open>tree_6\<close> with a target of 1 writes the outgroup leaf
  \<open>SHOOTOUTGROUP_PART.0-1_genes\<close> into the second subtree.
\<close>

theorem partition_leaf_chosen_as_outgroup:
  "choose_outgroup msa_6
      (Node [] 0 [Node [] 1 [Node ''PART.0-1_genes'' 1 [], Node ''B'' 1 []], Node ''C'' 1 []])
      [0, 1]
     = Inr ''PART.0-1_genes''
   \<and> map_sum id (\<lambda>r. sub_trees r ! 1) (split_tree tree_6 msa_6 1 True)
     = Inr (1, Node ''B'' 1 [], Some (''SHOOTOUTGROUP_PART.0-1_genes'', 1))"
  by code_simp

end
